theory Spec2Isabelle
  imports Main "HOL-Library.Sublist" "HOL-Library.Word"
begin

unbundle bit_operations_syntax

section \<open>The debug console: \<^verbatim>\<open>DebugInput.cpp\<close>\<close>

text \<open>
  \<^verbatim>\<open>class DebugInput\<close> collects the bytes of the debug UART into the array
  \<^verbatim>\<open>char buf[BUF_SIZE]\<close> through the cursor \<^verbatim>\<open>char * ptr\<close>, and raises the flag
  \<^verbatim>\<open>hasData\<close> once an end of line has been seen. The array is a list whose length is
  its declared size \<^verbatim>\<open>BUF_SIZE\<close> (the header that fixes the number is not part of the
  sources, so every size is covered); the cursor is the offset \<^verbatim>\<open>ptr - buf\<close>.
\<close>

record DebugInput =
  buf :: "char list"
  ptr :: nat
  hasData :: bool

definition BUF_SIZE :: "DebugInput \<Rightarrow> nat" where
  "BUF_SIZE d = length (buf d)"

abbreviation NUL :: char where
  "NUL \<equiv> CHR 0x00"

abbreviation CR :: char where
  "CR \<equiv> CHR 0x0D"

abbreviation LF :: char where
  "LF \<equiv> CHR 0x0A"

text \<open>
  C gives no meaning to an access outside an array. The model makes each one a value: a
  function that would store or load outside its array returns the fault instead of a
  state, so a claim of memory safety is the claim that no fault is returned.
\<close>

datatype fault =
    BufferOverrun nat   \<comment> \<open>a store through \<^verbatim>\<open>ptr\<close> at this offset, outside \<^verbatim>\<open>buf\<close>\<close>
  | OutOfBoundsRead     \<comment> \<open>a load outside the array it reads\<close>

text \<open>\<^verbatim>\<open>void DebugInput::reset() { ptr = buf; hasData = false; }\<close>\<close>

definition reset :: "DebugInput \<Rightarrow> DebugInput" where
  "reset d = d\<lparr>ptr := 0, hasData := False\<rparr>"

text \<open>
  The receive loop of \<^verbatim>\<open>handleDebugInput\<close>:
  \<^verbatim>\<open>while(u16AHI_UartReadRxFifoLevel(E_AHI_UART_0) > 0) { read ch; store; ptr++; }\<close>.
  The list is the bytes the loop reads before it finds the FIFO empty, in order. The
  loop body has no bound check of its own; the test \<open>ptr d < BUF_SIZE d\<close> below is
  the model telling a store inside the array from one outside it.
\<close>

fun rxLoop :: "DebugInput \<Rightarrow> char list \<Rightarrow> fault + DebugInput" where
  "rxLoop d [] = Inr d"
| "rxLoop d (ch # fifo) =
     (if ptr d < BUF_SIZE d
      then rxLoop
             (if ch = CR \<or> ch = LF
              then d\<lparr>buf := (buf d)[ptr d := NUL], hasData := True, ptr := Suc (ptr d)\<rparr>
              else d\<lparr>buf := (buf d)[ptr d := ch], ptr := Suc (ptr d)\<rparr>)
             fifo
      else Inl (BufferOverrun (ptr d)))"

text \<open>
  \<^verbatim>\<open>if(ptr >= buf + BUF_SIZE) return;\<close> comes first, once per call, then the loop.
\<close>

definition handleDebugInput :: "DebugInput \<Rightarrow> char list \<Rightarrow> fault + DebugInput" where
  "handleDebugInput d fifo = (if ptr d \<ge> BUF_SIZE d then Inr d else rxLoop d fifo)"

text \<open>
  Successive calls of \<^verbatim>\<open>handleDebugInput\<close> on the same object, as the main loop
  makes them: one list of bytes for each call, the first fault ends the run.
\<close>

fun polls :: "DebugInput \<Rightarrow> char list list \<Rightarrow> fault + DebugInput" where
  "polls d [] = Inr d"
| "polls d (fifo # fifos) =
     (case handleDebugInput d fifo of Inl f \<Rightarrow> Inl f | Inr d' \<Rightarrow> polls d' fifos)"

definition hasCompletedLine :: "DebugInput \<Rightarrow> bool" where
  "hasCompletedLine d = hasData d"

text \<open>
  The two functions of the C library that \<^verbatim>\<open>matchCommand\<close> calls, after the C standard.
  A string argument is the list of the bytes of its array from the pointer on; reading
  past the last of them is the fault. \<^verbatim>\<open>strncmp\<close> compares at most \<open>n\<close> bytes as
  unsigned values and stops behind a null byte.
\<close>

fun strlen :: "char list \<Rightarrow> fault + nat" where
  "strlen [] = Inl OutOfBoundsRead"
| "strlen (c # cs) =
     (if c = NUL then Inr 0
      else (case strlen cs of Inl f \<Rightarrow> Inl f | Inr n \<Rightarrow> Inr (Suc n)))"

fun strncmp :: "char list \<Rightarrow> char list \<Rightarrow> nat \<Rightarrow> fault + int" where
  "strncmp s1 s2 0 = Inr 0"
| "strncmp [] s2 (Suc n) = Inl OutOfBoundsRead"
| "strncmp (a # s1) [] (Suc n) = Inl OutOfBoundsRead"
| "strncmp (a # s1) (b # s2) (Suc n) =
     (if a \<noteq> b then Inr (int (of_char a) - int (of_char b))
      else if a = NUL then Inr 0
      else strncmp s1 s2 n)"

text \<open>
  \<^verbatim>\<open>int len = strlen(command);
  if(strncmp(command, buf, len) == 0 && buf[len] == 0) return true;
  return false;\<close>
  The operator \<^verbatim>\<open>&&\<close> reads \<^verbatim>\<open>buf[len]\<close> only after the comparison gave 0. (The
  conversion of the length to \<^verbatim>\<open>int\<close> is exact for every string that fits the
  memory of the device.)
\<close>

definition matchCommand :: "DebugInput \<Rightarrow> char list \<Rightarrow> fault + bool" where
  "matchCommand d command =
     (case strlen command of
        Inl f \<Rightarrow> Inl f
      | Inr len \<Rightarrow>
          (case strncmp command (buf d) len of
             Inl f \<Rightarrow> Inl f
           | Inr r \<Rightarrow>
               if r = 0
               then (if len < BUF_SIZE d then Inr (buf d ! len = NUL) else Inl OutOfBoundsRead)
               else Inr False))"

text \<open>The string a character array holds: its bytes before the first null byte.\<close>

definition cstring :: "char list \<Rightarrow> char list" where
  "cstring bs = takeWhile (\<lambda>c. c \<noteq> NUL) bs"

text \<open>A string literal of the source, as the array the compiler lays out for it.\<close>

definition literal :: "string \<Rightarrow> char list" where
  "literal s = s @ [NUL]"

text \<open>
  \<^verbatim>\<open>APP_vHandleDebugInput\<close> polls the UART and, when a line is complete, compares it
  with the commands it knows, calls \<^verbatim>\<open>ButtonsTask::setButtonsOverride\<close> for those
  that match, and resets the input. The calls to \<^verbatim>\<open>setButtonsOverride\<close> are the
  function's effect on the rest of the firmware: the model returns their arguments in
  the order of the calls. The masks \<^verbatim>\<open>SWITCH1_BTN_MASK\<close> and \<^verbatim>\<open>SWITCH2_BTN_MASK\<close>
  are macros of the board configuration: \<open>sw1\<close> is the first, \<open>sw2\<close> is the second
  when \<^verbatim>\<open>SWITCH2_BTN_PIN\<close> is defined and \<open>None\<close> when it is not (the two
  comparisons under \<^verbatim>\<open>#ifdef\<close> are then not compiled). The debug prints have no
  effect on the state.
\<close>

definition bindF :: "fault + 'a \<Rightarrow> ('a \<Rightarrow> fault + 'b) \<Rightarrow> fault + 'b" where
  "bindF m f = (case m of Inl e \<Rightarrow> Inl e | Inr x \<Rightarrow> f x)"

text \<open>The operator \<^verbatim>\<open>||\<close>: the right operand is evaluated only when the left is false.\<close>

definition orElse :: "fault + bool \<Rightarrow> fault + bool \<Rightarrow> fault + bool" where
  "orElse a b = bindF a (\<lambda>x. if x then Inr True else b)"

definition second_button_calls :: "32 word \<Rightarrow> 32 word option \<Rightarrow> DebugInput \<Rightarrow> fault + 32 word list" where
  "second_button_calls sw1 sw2 d =
     (case sw2 of
        None \<Rightarrow> Inr []
      | Some m2 \<Rightarrow>
          bindF (matchCommand d (literal ''BTN2_PRESS'')) (\<lambda>b2.
          bindF (matchCommand d (literal ''BTN3_PRESS'')) (\<lambda>b3.
            Inr ((if b2 then [m2] else []) @ (if b3 then [sw1 OR m2] else [])))))"

definition APP_vHandleDebugInput ::
    "32 word \<Rightarrow> 32 word option \<Rightarrow> DebugInput \<Rightarrow> char list \<Rightarrow> fault + (DebugInput \<times> 32 word list)" where
  "APP_vHandleDebugInput sw1 sw2 debugInput fifo =
     bindF (handleDebugInput debugInput fifo) (\<lambda>d.
       if hasCompletedLine d
       then
         bindF (matchCommand d (literal ''BTN1_PRESS'')) (\<lambda>b1.
         bindF (second_button_calls sw1 sw2 d) (\<lambda>calls2.
         bindF (orElse (matchCommand d (literal ''BTN1_RELEASE''))
                 (orElse (matchCommand d (literal ''BTN2_RELEASE''))
                         (matchCommand d (literal ''BTN3_RELEASE'')))) (\<lambda>br.
           Inr (reset d, (if b1 then [sw1] else []) @ calls2 @ (if br then [0] else [])))))
       else Inr (d, []))"

text \<open>
  What the rest of the development assumes of a \<^verbatim>\<open>DebugInput\<close> on entry to a call:
  when the flag is up, a null byte stands before the cursor. The constructor
  establishes it (the flag is down) and every method keeps it.
\<close>

definition line_terminated :: "DebugInput \<Rightarrow> bool" where
  "line_terminated d = (if hasData d then NUL \<in> set (take (ptr d) (buf d)) else True)"

section \<open>The interlock between the two channels\<close>

text \<open>
  The firmware's code for the interlock of the two button channels is not among the
  sources (\<^verbatim>\<open>SwitchEndpoint.h\<close> declares \<^verbatim>\<open>doStateChange\<close>, \<^verbatim>\<open>switchOn\<close>,
  \<^verbatim>\<open>switchOff\<close> and \<^verbatim>\<open>toggle\<close> without their bodies). The definitions of this
  section follow the words of the specification instead, sections 3 and 4.3.
\<close>

text \<open>
  Modelled from the spec: the interlock modes of the missing channel configuration,
  \<^verbatim>\<open>InterlockMode {None, MutualExclusion, Opposite}\<close>; the two sides of a pair carry the
  same mode. (\<open>None\<close> is the constructor of \<open>option\<close>, hence \<open>InterlockNone\<close>.)
\<close>

datatype InterlockMode = InterlockNone | MutualExclusion | Opposite

text \<open>
  Modelled from the spec: the missing \<^verbatim>\<open>InterlockGroup\<close>, "a fixed pairing of exactly two
  channels", which holds nothing but the two relay states, each "per channel boolean
  on/off".
\<close>

datatype Channel = ChannelA | ChannelB

type_synonym RelayStates = "Channel \<Rightarrow> bool"

fun sibling :: "Channel \<Rightarrow> Channel" where
  "sibling ChannelA = ChannelB"
| "sibling ChannelB = ChannelA"

text \<open>
  Modelled from the spec: the missing \<^verbatim>\<open>InterlockCoordinator\<close>,
  \<^verbatim>\<open>proposeTransition(channel, newState)\<close>, with its side effect on the sibling's state
  made the result. Its rules: "\<^verbatim>\<open>None\<close>: no interaction, transition applied as proposed.
  \<^verbatim>\<open>MutualExclusion\<close>: if \<^verbatim>\<open>newState == on\<close>, force sibling to \<^verbatim>\<open>off\<close>; turning a channel
  \<^verbatim>\<open>off\<close> never affects the sibling; both may be \<^verbatim>\<open>off\<close> simultaneously.
  \<^verbatim>\<open>Opposite\<close>: any transition on one channel forces the sibling to the logical
  negation." No rule turns a proposal down, so the status the call returns is left
  out. "All interlock effects are synchronous and complete before the originating call
  returns": one call is one step of the model.
\<close>

definition proposeTransition ::
    "InterlockMode \<Rightarrow> Channel \<Rightarrow> bool \<Rightarrow> RelayStates \<Rightarrow> RelayStates" where
  "proposeTransition mode channel newState relays =
     (case mode of
        InterlockNone \<Rightarrow> relays(channel := newState)
      | MutualExclusion \<Rightarrow>
          if newState then relays(channel := True, sibling channel := False)
          else relays(channel := False)
      | Opposite \<Rightarrow> relays(channel := newState, sibling channel := \<not> newState))"

text \<open>
  Modelled from the spec: the relay states are "mutated only via \<^verbatim>\<open>doStateChange\<close>" and
  "all external sets must pass through InterlockCoordinator", so a run of the pair is
  a sequence of proposals, from the buttons or from the network, in any order. The
  states a collaborator can observe are the one before the first call and the one each
  call returns with.
\<close>

fun observed :: "InterlockMode \<Rightarrow> RelayStates \<Rightarrow> (Channel \<times> bool) list \<Rightarrow> RelayStates list" where
  "observed mode relays [] = [relays]"
| "observed mode relays ((channel, newState) # proposals) =
     relays # observed mode (proposeTransition mode channel newState relays) proposals"

text \<open>The two conditions the specification calls the interlock invariants.\<close>

definition bothOn :: "RelayStates \<Rightarrow> bool" where
  "bothOn relays = (relays ChannelA \<and> relays ChannelB)"

definition negated :: "RelayStates \<Rightarrow> bool" where
  "negated relays = (relays ChannelA \<noteq> relays ChannelB)"

section \<open>The receive loop and the end of the buffer\<close>

lemma rxLoop_overrun:
  "ptr d \<le> BUF_SIZE d \<Longrightarrow> BUF_SIZE d - ptr d < length fifo \<Longrightarrow>
   rxLoop d fifo = Inl (BufferOverrun (BUF_SIZE d))"
proof (induction fifo arbitrary: d)
  case Nil
  then show ?case by simp
next
  case (Cons ch fifo)
  show ?case
  proof (cases "ptr d < BUF_SIZE d")
    case True
    let ?d' = "if ch = CR \<or> ch = LF
               then d\<lparr>buf := (buf d)[ptr d := NUL], hasData := True, ptr := Suc (ptr d)\<rparr>
               else d\<lparr>buf := (buf d)[ptr d := ch], ptr := Suc (ptr d)\<rparr>"
    have size: "BUF_SIZE ?d' = BUF_SIZE d" and cursor: "ptr ?d' = Suc (ptr d)"
      by (simp_all add: BUF_SIZE_def)
    have "rxLoop ?d' fifo = Inl (BufferOverrun (BUF_SIZE ?d'))"
    proof (rule Cons.IH)
      show "ptr ?d' \<le> BUF_SIZE ?d'" using True by (simp add: size cursor)
      show "BUF_SIZE ?d' - ptr ?d' < length fifo"
        using True Cons.prems(2) by (simp add: size cursor)
    qed
    then show ?thesis using True by (simp add: size)
  next
    case False
    then have "ptr d = BUF_SIZE d" using Cons.prems(1) by simp
    then show ?thesis by simp
  qed
qed

text \<open>
  C8. The claim: every store through \<^verbatim>\<open>ptr\<close> lands inside \<^verbatim>\<open>buf\<close>, the guard at the
  entry of \<^verbatim>\<open>handleDebugInput\<close> being enough. The guard is tested once, before the
  loop, and the loop stores and advances for every byte the FIFO delivers: after a
  reset, one call that finds one byte more than the buffer holds, none of them an end
  of line, stores the last byte at offset \<^verbatim>\<open>BUF_SIZE\<close>, one past the end of \<^verbatim>\<open>buf\<close>.
\<close>

theorem handleDebugInput_overruns:
  "buf d \<noteq> [] \<Longrightarrow>
   handleDebugInput (reset d) (replicate (Suc (BUF_SIZE d)) (CHR ''x'')) =
     Inl (BufferOverrun (BUF_SIZE d))"
proof -
  assume nonempty: "buf d \<noteq> []"
  have size: "BUF_SIZE (reset d) = BUF_SIZE d" and cursor: "ptr (reset d) = 0"
    by (simp_all add: reset_def BUF_SIZE_def)
  have "rxLoop (reset d) (replicate (Suc (BUF_SIZE d)) (CHR ''x'')) =
          Inl (BufferOverrun (BUF_SIZE (reset d)))"
    by (rule rxLoop_overrun) (simp_all add: size cursor)
  moreover have "\<not> ptr (reset d) \<ge> BUF_SIZE (reset d)"
    using nonempty by (simp add: cursor BUF_SIZE_def reset_def)
  ultimately show ?thesis by (simp add: handleDebugInput_def size)
qed

theorem handleDebugInput_overruns_witness:
  "handleDebugInput (reset \<lparr>buf = replicate 4 NUL, ptr = 0, hasData = False\<rparr>) ''xxxxx'' =
     Inl (BufferOverrun 4)"
proof -
  have "buf \<lparr>buf = replicate 4 NUL, ptr = 0, hasData = False\<rparr> \<noteq> []" by simp
  from handleDebugInput_overruns [OF this] show ?thesis
    by (simp add: BUF_SIZE_def numeral_eq_Suc)
qed

lemma handleDebugInput_overruns_late:
  "ptr d < BUF_SIZE d \<Longrightarrow> BUF_SIZE d - ptr d < length fifo \<Longrightarrow>
   handleDebugInput d fifo = Inl (BufferOverrun (BUF_SIZE d))"
  using rxLoop_overrun [of d fifo] by (simp add: handleDebugInput_def)

lemma rxLoop_fits:
  "ptr d + length fifo \<le> BUF_SIZE d \<Longrightarrow>
   \<exists>d'. rxLoop d fifo = Inr d' \<and> ptr d' = ptr d + length fifo \<and> BUF_SIZE d' = BUF_SIZE d"
proof (induction fifo arbitrary: d)
  case Nil
  then show ?case by simp
next
  case (Cons ch fifo)
  let ?d1 = "if ch = CR \<or> ch = LF
             then d\<lparr>buf := (buf d)[ptr d := NUL], hasData := True, ptr := Suc (ptr d)\<rparr>
             else d\<lparr>buf := (buf d)[ptr d := ch], ptr := Suc (ptr d)\<rparr>"
  have size: "BUF_SIZE ?d1 = BUF_SIZE d" and cursor: "ptr ?d1 = Suc (ptr d)"
    by (simp_all add: BUF_SIZE_def)
  from Cons.prems have inside: "ptr d < BUF_SIZE d" by simp
  from Cons.prems have "ptr ?d1 + length fifo \<le> BUF_SIZE ?d1" by (simp add: size cursor)
  from Cons.IH [OF this] obtain d' where
    "rxLoop ?d1 fifo = Inr d'" "ptr d' = ptr ?d1 + length fifo" "BUF_SIZE d' = BUF_SIZE ?d1"
    by blast
  with inside show ?case by (simp add: size cursor)
qed

text \<open>
  The stores of a call stay inside the buffer exactly when the bytes the call reads fit
  behind the cursor (or the guard returns at once).
\<close>

lemma handleDebugInput_fault_iff:
  "(\<exists>f. handleDebugInput d fifo = Inl f) \<longleftrightarrow>
   ptr d < BUF_SIZE d \<and> BUF_SIZE d - ptr d < length fifo"
proof (cases "ptr d < BUF_SIZE d")
  case False
  then show ?thesis by (simp add: handleDebugInput_def)
next
  case True
  show ?thesis
  proof (cases "BUF_SIZE d - ptr d < length fifo")
    case long: True
    from True have "ptr d \<le> BUF_SIZE d" by simp
    from rxLoop_overrun [OF this long] True long show ?thesis
      by (simp add: handleDebugInput_def)
  next
    case short: False
    with True have "ptr d + length fifo \<le> BUF_SIZE d" by simp
    from rxLoop_fits [OF this] obtain d' where "rxLoop d fifo = Inr d'" by blast
    with True short show ?thesis by (simp add: handleDebugInput_def)
  qed
qed

text \<open>
  The overrun needs no long burst: with one byte in each call up to the last cell of the
  buffer and two bytes in the next call, the second of them is stored past the end.
\<close>

lemma polls_append:
  "polls d (xs @ ys) = (case polls d xs of Inl f \<Rightarrow> Inl f | Inr d' \<Rightarrow> polls d' ys)"
  by (induction xs arbitrary: d) (auto split: sum.splits)

lemma handleDebugInput_fits:
  assumes "ptr d + length fifo \<le> BUF_SIZE d" and "fifo \<noteq> []"
  shows "\<exists>d'. handleDebugInput d fifo = Inr d' \<and> ptr d' = ptr d + length fifo \<and>
              BUF_SIZE d' = BUF_SIZE d"
proof -
  from assms have "\<not> ptr d \<ge> BUF_SIZE d" by (cases fifo) auto
  with rxLoop_fits [OF assms(1)] show ?thesis by (simp add: handleDebugInput_def)
qed

lemma polls_single_bytes:
  "ptr d + n \<le> BUF_SIZE d \<Longrightarrow>
   \<exists>d'. polls d (replicate n [c]) = Inr d' \<and> ptr d' = ptr d + n \<and> BUF_SIZE d' = BUF_SIZE d"
proof (induction n arbitrary: d)
  case 0
  then show ?case by simp
next
  case (Suc n)
  from Suc.prems have "ptr d + length [c] \<le> BUF_SIZE d" by simp
  from handleDebugInput_fits [OF this] obtain d1 where
    d1: "handleDebugInput d [c] = Inr d1" "ptr d1 = ptr d + 1" "BUF_SIZE d1 = BUF_SIZE d"
    by auto
  with Suc.prems have "ptr d1 + n \<le> BUF_SIZE d1" by simp
  from Suc.IH [OF this] d1 show ?case by auto
qed

lemma polls_overrun_two_bytes:
  assumes "buf d \<noteq> []"
  shows "polls (reset d) (replicate (BUF_SIZE d - 1) [c] @ [[c1, c2]]) =
           Inl (BufferOverrun (BUF_SIZE d))"
proof -
  have size: "BUF_SIZE (reset d) = BUF_SIZE d" and cursor: "ptr (reset d) = 0"
    by (simp_all add: reset_def BUF_SIZE_def)
  from assms have pos: "0 < BUF_SIZE d" by (simp add: BUF_SIZE_def)
  have "ptr (reset d) + (BUF_SIZE d - 1) \<le> BUF_SIZE (reset d)" by (simp add: size cursor)
  from polls_single_bytes [OF this, of c] obtain d' where
    d': "polls (reset d) (replicate (BUF_SIZE d - 1) [c]) = Inr d'"
        "ptr d' = BUF_SIZE d - 1" "BUF_SIZE d' = BUF_SIZE d"
    by (auto simp: size cursor)
  have "handleDebugInput d' [c1, c2] = Inl (BufferOverrun (BUF_SIZE d'))"
  proof (rule handleDebugInput_overruns_late)
    show "ptr d' < BUF_SIZE d'" using d' pos by simp
    show "BUF_SIZE d' - ptr d' < length [c1, c2]" using d' pos by simp
  qed
  with d' show ?thesis by (simp add: polls_append)
qed

section \<open>Matching a command against the buffered line\<close>

lemma strlen_cstring:
  "NUL \<in> set command \<Longrightarrow> strlen command = Inr (length (cstring command))"
  by (induction command) (auto simp: cstring_def)

lemma strncmp_prefix:
  "NUL \<notin> set cmd \<Longrightarrow> NUL \<in> set b \<Longrightarrow>
   \<exists>r. strncmp (cmd @ rest) b (length cmd) = Inr r \<and> (r = 0 \<longleftrightarrow> take (length cmd) b = cmd)"
proof (induction cmd arbitrary: b)
  case Nil
  then show ?case by simp
next
  case (Cons c cmd)
  from Cons.prems(2) obtain x b' where b: "b = x # b'" by (cases b) auto
  show ?case
  proof (cases "c = x")
    case True
    with Cons.prems b have "NUL \<in> set b'" by auto
    with Cons.IH [of b'] Cons.prems(1) True b show ?thesis by auto
  next
    case False
    then have "int (of_char c) - int (of_char x) \<noteq> 0" by simp
    with False b show ?thesis by simp
  qed
qed

lemma cstring_split:
  "NUL \<in> set bs \<Longrightarrow> \<exists>rest. bs = cstring bs @ NUL # rest"
  unfolding cstring_def
  by (induction bs) auto

lemma cstring_no_NUL: "NUL \<notin> set (cstring bs)"
  unfolding cstring_def by (induction bs) auto

lemma cstring_eq_iff:
  assumes "NUL \<notin> set cmd" "NUL \<in> set b"
  shows "cstring b = cmd \<longleftrightarrow>
         take (length cmd) b = cmd \<and> length cmd < length b \<and> b ! length cmd = NUL"
proof
  assume eq: "cstring b = cmd"
  from cstring_split [OF assms(2)] obtain rest where "b = cstring b @ NUL # rest" ..
  with eq have "b = cmd @ NUL # rest" by simp
  then show "take (length cmd) b = cmd \<and> length cmd < length b \<and> b ! length cmd = NUL"
    by simp
next
  assume h: "take (length cmd) b = cmd \<and> length cmd < length b \<and> b ! length cmd = NUL"
  then have "b = cmd @ NUL # drop (Suc (length cmd)) b"
    by (metis append_take_drop_id Cons_nth_drop_Suc)
  then have "cstring b = takeWhile (\<lambda>c. c \<noteq> NUL) (cmd @ NUL # drop (Suc (length cmd)) b)"
    by (simp add: cstring_def)
  also have "\<dots> = cmd" using assms(1) by (subst takeWhile_append2) auto
  finally show "cstring b = cmd" .
qed

lemma matchCommand_cstring:
  assumes "NUL \<in> set command" and "NUL \<in> set (buf d)"
  shows "matchCommand d command = Inr (cstring (buf d) = cstring command)"
proof -
  let ?cmd = "cstring command"
  let ?len = "length ?cmd"
  from cstring_split [OF assms(1)] obtain rest where command: "command = ?cmd @ NUL # rest" ..
  have len: "strlen command = Inr ?len" by (rule strlen_cstring [OF assms(1)])
  from strncmp_prefix [OF cstring_no_NUL assms(2), of command "NUL # rest"] command
  obtain r where r: "strncmp command (buf d) ?len = Inr r"
    and r0: "r = 0 \<longleftrightarrow> take ?len (buf d) = ?cmd" by auto
  show ?thesis
  proof (cases "r = 0")
    case True
    with r0 have tk: "take ?len (buf d) = ?cmd" by simp
    have "?len < length (buf d)"
    proof (rule ccontr)
      assume "\<not> ?len < length (buf d)"
      then have "take ?len (buf d) = buf d" by simp
      with tk assms(2) cstring_no_NUL [of command] show False by simp
    qed
    with True r len tk cstring_eq_iff [OF cstring_no_NUL assms(2), of command]
    show ?thesis by (simp add: matchCommand_def BUF_SIZE_def)
  next
    case False
    with r0 have "take ?len (buf d) \<noteq> ?cmd" by simp
    with cstring_eq_iff [OF cstring_no_NUL assms(2), of command]
    have "cstring (buf d) \<noteq> ?cmd" by simp
    with False r len show ?thesis by (simp add: matchCommand_def)
  qed
qed

text \<open>
  C9. For a null-terminated \<^verbatim>\<open>command\<close> and a buffer that holds a completed line
  (a null byte stands in \<^verbatim>\<open>buf\<close>), \<^verbatim>\<open>matchCommand\<close> reads inside both arrays and
  returns true exactly when the first \<^verbatim>\<open>strlen(command)\<close> bytes of \<^verbatim>\<open>buf\<close> are the
  command and the byte of \<^verbatim>\<open>buf\<close> at index \<^verbatim>\<open>strlen(command)\<close> is the null byte, that
  is, exactly when the buffered line equals the command; a command that is a proper
  prefix of the buffered line does not match.
\<close>

theorem matchCommand_exact_line:
  assumes "NUL \<in> set command" and "NUL \<in> set (buf d)"
  shows "strlen command = Inr (length (cstring command)) \<and>
         matchCommand d command =
           Inr (take (length (cstring command)) (buf d) = cstring command \<and>
                length (cstring command) < BUF_SIZE d \<and>
                buf d ! length (cstring command) = NUL) \<and>
         matchCommand d command = Inr (cstring (buf d) = cstring command) \<and>
         (strict_prefix (cstring command) (cstring (buf d)) \<longrightarrow>
            matchCommand d command = Inr False)"
proof -
  have exact: "matchCommand d command = Inr (cstring (buf d) = cstring command)"
    by (rule matchCommand_cstring [OF assms])
  have bytes: "(cstring (buf d) = cstring command) =
        (take (length (cstring command)) (buf d) = cstring command \<and>
         length (cstring command) < BUF_SIZE d \<and>
         buf d ! length (cstring command) = NUL)"
    using cstring_eq_iff [OF cstring_no_NUL assms(2), of command] by (simp add: BUF_SIZE_def)
  have longer: "strict_prefix (cstring command) (cstring (buf d)) \<longrightarrow>
        matchCommand d command = Inr False"
    using exact by (auto simp: strict_prefix_def)
  from exact bytes longer strlen_cstring [OF assms(1)] show ?thesis by simp
qed

theorem matchCommand_exact_line_witness:
  "NUL \<in> set (literal ''BTN1_PRESS'') \<and>
   NUL \<in> set (buf \<lparr>buf = ''BTN1_PRESSED'' @ [NUL, CHR ''x''], ptr = 13, hasData = True\<rparr>) \<and>
   strict_prefix (cstring (literal ''BTN1_PRESS''))
     (cstring (buf \<lparr>buf = ''BTN1_PRESSED'' @ [NUL, CHR ''x''], ptr = 13, hasData = True\<rparr>)) \<and>
   matchCommand \<lparr>buf = ''BTN1_PRESSED'' @ [NUL, CHR ''x''], ptr = 13, hasData = True\<rparr>
     (literal ''BTN1_PRESS'') = Inr False \<and>
   NUL \<in> set (buf \<lparr>buf = ''BTN1_PRESS'' @ [NUL, CHR ''x''], ptr = 11, hasData = True\<rparr>) \<and>
   matchCommand \<lparr>buf = ''BTN1_PRESS'' @ [NUL, CHR ''x''], ptr = 11, hasData = True\<rparr>
     (literal ''BTN1_PRESS'') = Inr True"
proof -
  let ?longer = "\<lparr>buf = ''BTN1_PRESSED'' @ [NUL, CHR ''x''], ptr = 13, hasData = True\<rparr>"
  let ?same = "\<lparr>buf = ''BTN1_PRESS'' @ [NUL, CHR ''x''], ptr = 11, hasData = True\<rparr>"
  have c: "NUL \<in> set (literal ''BTN1_PRESS'')" by (simp add: literal_def)
  have l: "NUL \<in> set (buf ?longer)" and s: "NUL \<in> set (buf ?same)" by simp_all
  have p: "strict_prefix (cstring (literal ''BTN1_PRESS'')) (cstring (buf ?longer))"
    by (simp add: cstring_def literal_def strict_prefix_def)
  from matchCommand_exact_line [OF c l] p
  have "matchCommand ?longer (literal ''BTN1_PRESS'') = Inr False" by blast
  moreover from matchCommand_exact_line [OF c s]
  have "matchCommand ?same (literal ''BTN1_PRESS'') = Inr True"
    by (simp add: cstring_def literal_def BUF_SIZE_def)
  ultimately show ?thesis using c l s p by blast
qed

section \<open>One poll of the console\<close>

lemma take_Suc_update:
  "p < length xs \<Longrightarrow> take (Suc p) (xs[p := v]) = take p xs @ [v]"
  by (simp add: take_Suc_conv_app_nth)

lemma rxLoop_line_terminated:
  "line_terminated d \<Longrightarrow> rxLoop d fifo = Inr d' \<Longrightarrow> line_terminated d'"
proof (induction fifo arbitrary: d)
  case Nil
  then show ?case by simp
next
  case (Cons ch fifo)
  let ?d1 = "if ch = CR \<or> ch = LF
             then d\<lparr>buf := (buf d)[ptr d := NUL], hasData := True, ptr := Suc (ptr d)\<rparr>
             else d\<lparr>buf := (buf d)[ptr d := ch], ptr := Suc (ptr d)\<rparr>"
  from Cons.prems(2) have inside: "ptr d < length (buf d)" and rest: "rxLoop ?d1 fifo = Inr d'"
    by (auto simp: BUF_SIZE_def split: if_splits)
  have "line_terminated ?d1"
    using Cons.prems(1) inside by (simp add: line_terminated_def take_Suc_update)
  from Cons.IH [OF this rest] show ?case .
qed

lemma handleDebugInput_line_terminated:
  "line_terminated d \<Longrightarrow> handleDebugInput d fifo = Inr d' \<Longrightarrow> line_terminated d'"
  by (auto simp: handleDebugInput_def split: if_splits intro: rxLoop_line_terminated)

lemma reset_line_terminated: "line_terminated (reset d)"
  by (simp add: line_terminated_def reset_def)

lemma completed_line_NUL:
  "hasData d \<Longrightarrow> line_terminated d \<Longrightarrow> NUL \<in> set (buf d)"
  by (auto simp: line_terminated_def dest: in_set_takeD)

lemma matchCommand_literal:
  assumes "NUL \<notin> set s" and "NUL \<in> set (buf d)"
  shows "matchCommand d (literal s) = Inr (cstring (buf d) = s)"
proof -
  have "cstring (literal s) = s"
    using assms(1) unfolding cstring_def literal_def by (subst takeWhile_append2) auto
  moreover have "NUL \<in> set (literal s)" by (simp add: literal_def)
  ultimately show ?thesis using matchCommand_cstring [OF _ assms(2), of "literal s"] by simp
qed

lemma rxLoop_no_line_end:
  "CR \<notin> set fifo \<Longrightarrow> LF \<notin> set fifo \<Longrightarrow> rxLoop d fifo = Inr d' \<Longrightarrow> hasData d' = hasData d"
proof (induction fifo arbitrary: d)
  case Nil
  then show ?case by simp
next
  case (Cons ch fifo)
  from Cons.prems have ch: "\<not> (ch = CR \<or> ch = LF)" by auto
  with Cons.prems(3)
  have "rxLoop (d\<lparr>buf := (buf d)[ptr d := ch], ptr := Suc (ptr d)\<rparr>) fifo = Inr d'"
    by (simp split: if_splits)
  from Cons.IH [OF _ _ this] Cons.prems(1,2) show ?case by simp
qed

lemma handleDebugInput_no_line_end:
  "CR \<notin> set fifo \<Longrightarrow> LF \<notin> set fifo \<Longrightarrow> handleDebugInput d fifo = Inr d' \<Longrightarrow>
   hasData d' = hasData d"
  by (auto simp: handleDebugInput_def split: if_splits dest: rxLoop_no_line_end)

lemma APP_no_line:
  "handleDebugInput d fifo = Inr d1 \<Longrightarrow> \<not> hasData d1 \<Longrightarrow>
   APP_vHandleDebugInput sw1 sw2 d fifo = Inr (d1, [])"
  by (simp add: APP_vHandleDebugInput_def bindF_def hasCompletedLine_def)

lemma APP_line_calls:
  assumes "handleDebugInput d fifo = Inr d1" and "hasData d1" and "NUL \<in> set (buf d1)"
  shows "APP_vHandleDebugInput sw1 sw2 d fifo =
           Inr (reset d1,
                (if cstring (buf d1) = ''BTN1_PRESS'' then [sw1] else []) @
                (case sw2 of
                   None \<Rightarrow> []
                 | Some m2 \<Rightarrow>
                     (if cstring (buf d1) = ''BTN2_PRESS'' then [m2] else []) @
                     (if cstring (buf d1) = ''BTN3_PRESS'' then [sw1 OR m2] else [])) @
                (if cstring (buf d1) = ''BTN1_RELEASE'' \<or> cstring (buf d1) = ''BTN2_RELEASE'' \<or>
                    cstring (buf d1) = ''BTN3_RELEASE''
                 then [0] else []))"
proof -
  note m = matchCommand_literal [OF _ assms(3)]
  have m1: "matchCommand d1 (literal ''BTN1_PRESS'') = Inr (cstring (buf d1) = ''BTN1_PRESS'')"
    by (rule m) simp
  have m2: "matchCommand d1 (literal ''BTN2_PRESS'') = Inr (cstring (buf d1) = ''BTN2_PRESS'')"
    by (rule m) simp
  have m3: "matchCommand d1 (literal ''BTN3_PRESS'') = Inr (cstring (buf d1) = ''BTN3_PRESS'')"
    by (rule m) simp
  have r1: "matchCommand d1 (literal ''BTN1_RELEASE'') = Inr (cstring (buf d1) = ''BTN1_RELEASE'')"
    by (rule m) simp
  have r2: "matchCommand d1 (literal ''BTN2_RELEASE'') = Inr (cstring (buf d1) = ''BTN2_RELEASE'')"
    by (rule m) simp
  have r3: "matchCommand d1 (literal ''BTN3_RELEASE'') = Inr (cstring (buf d1) = ''BTN3_RELEASE'')"
    by (rule m) simp
  show ?thesis
    using assms(1,2)
    by (cases sw2)
       (simp_all add: APP_vHandleDebugInput_def second_button_calls_def bindF_def orElse_def
          hasCompletedLine_def m1 m2 m3 r1 r2 r3)
qed

lemma APP_line:
  assumes "handleDebugInput d fifo = Inr d1" and "hasData d1" and "NUL \<in> set (buf d1)"
  shows "\<exists>calls. APP_vHandleDebugInput sw1 sw2 d fifo = Inr (reset d1, calls) \<and> length calls \<le> 1"
  unfolding APP_line_calls [OF assms] by (cases sw2) auto

lemma APP_line_terminated:
  assumes "line_terminated d" and "APP_vHandleDebugInput sw1 sw2 d fifo = Inr (d', calls)"
  shows "line_terminated d'"
proof -
  from assms(2) obtain d1 where d1: "handleDebugInput d fifo = Inr d1"
    by (cases "handleDebugInput d fifo") (simp_all add: APP_vHandleDebugInput_def bindF_def)
  have t1: "line_terminated d1" by (rule handleDebugInput_line_terminated [OF assms(1) d1])
  show ?thesis
  proof (cases "hasData d1")
    case True
    with t1 have "NUL \<in> set (buf d1)" by (simp add: completed_line_NUL)
    from APP_line [OF d1 True this, of sw1 sw2] assms(2) have "d' = reset d1" by auto
    then show ?thesis by (simp add: reset_line_terminated)
  next
    case False
    from APP_no_line [OF d1 False, of sw1 sw2] assms(2) t1 show ?thesis by simp
  qed
qed

text \<open>
  C10. Let a poll of the UART that stays inside the buffer leave the input in state
  \<open>d1\<close>. If no line is complete in \<open>d1\<close>, \<^verbatim>\<open>APP_vHandleDebugInput\<close> makes no call of
  \<^verbatim>\<open>setButtonsOverride\<close> and leaves the input as the poll left it. If a line is
  complete, it returns with the input reset (cursor at the start of the buffer, flag
  down, bytes of the buffer untouched) after at most one call of
  \<^verbatim>\<open>setButtonsOverride\<close>; and a later poll that reads no end of line makes no call,
  so the line is acted on once.
\<close>

theorem APP_vHandleDebugInput_frame:
  assumes "line_terminated d" and "handleDebugInput d fifo = Inr d1"
    and "CR \<notin> set fifo2" and "LF \<notin> set fifo2" and "length fifo2 \<le> BUF_SIZE d1"
  shows "case APP_vHandleDebugInput sw1 sw2 d fifo of
           Inl f \<Rightarrow> False
         | Inr (d', calls) \<Rightarrow>
             (if hasCompletedLine d1
              then d' = reset d1 \<and> ptr d' = 0 \<and> \<not> hasData d' \<and> buf d' = buf d1 \<and>
                   length calls \<le> 1 \<and>
                   (\<exists>d2. APP_vHandleDebugInput sw1 sw2 d' fifo2 = Inr (d2, []))
              else d' = d1 \<and> calls = [])"
proof (cases "hasData d1")
  case True
  have "line_terminated d1" by (rule handleDebugInput_line_terminated [OF assms(1,2)])
  then have "NUL \<in> set (buf d1)" using True by (simp add: completed_line_NUL)
  from APP_line [OF assms(2) True this, of sw1 sw2] obtain calls where
    run: "APP_vHandleDebugInput sw1 sw2 d fifo = Inr (reset d1, calls)" and one: "length calls \<le> 1"
    by blast
  have "ptr (reset d1) + length fifo2 \<le> BUF_SIZE (reset d1)"
    using assms(5) by (simp add: reset_def BUF_SIZE_def)
  then have "\<not> (\<exists>f. handleDebugInput (reset d1) fifo2 = Inl f)"
    unfolding handleDebugInput_fault_iff by linarith
  then obtain d2 where d2: "handleDebugInput (reset d1) fifo2 = Inr d2"
    by (cases "handleDebugInput (reset d1) fifo2") auto
  from handleDebugInput_no_line_end [OF assms(3,4) d2] have "\<not> hasData d2"
    by (simp add: reset_def)
  from APP_no_line [OF d2 this]
  have again: "\<exists>d2. APP_vHandleDebugInput sw1 sw2 (reset d1) fifo2 = Inr (d2, [])"
    by blast
  have fields: "ptr (reset d1) = 0 \<and> \<not> hasData (reset d1) \<and> buf (reset d1) = buf d1"
    by (simp add: reset_def)
  from True run one again fields show ?thesis by (simp add: hasCompletedLine_def)
next
  case False
  with APP_no_line [OF assms(2) False, of sw1 sw2] show ?thesis
    by (simp add: hasCompletedLine_def)
qed

theorem APP_vHandleDebugInput_frame_witness:
  "line_terminated \<lparr>buf = ''............'', ptr = 0, hasData = False\<rparr> \<and>
   handleDebugInput \<lparr>buf = ''............'', ptr = 0, hasData = False\<rparr> (''BTN1_PRESS'' @ [LF]) =
     Inr \<lparr>buf = ''BTN1_PRESS'' @ [NUL, CHR ''.''], ptr = 11, hasData = True\<rparr> \<and>
   CR \<notin> set ''x'' \<and> LF \<notin> set ''x'' \<and>
   length ''x'' \<le> BUF_SIZE \<lparr>buf = ''BTN1_PRESS'' @ [NUL, CHR ''.''], ptr = 11, hasData = True\<rparr> \<and>
   APP_vHandleDebugInput 1 (Some 2) \<lparr>buf = ''............'', ptr = 0, hasData = False\<rparr>
       (''BTN1_PRESS'' @ [LF]) =
     Inr (\<lparr>buf = ''BTN1_PRESS'' @ [NUL, CHR ''.''], ptr = 0, hasData = False\<rparr>, [1]) \<and>
   (\<exists>d2. APP_vHandleDebugInput 1 (Some 2)
           \<lparr>buf = ''BTN1_PRESS'' @ [NUL, CHR ''.''], ptr = 0, hasData = False\<rparr> ''x'' =
         Inr (d2, []))"
proof -
  let ?d = "\<lparr>buf = ''............'', ptr = 0, hasData = False\<rparr>"
  let ?d1 = "\<lparr>buf = ''BTN1_PRESS'' @ [NUL, CHR ''.''], ptr = 11, hasData = True\<rparr>"
  let ?d' = "\<lparr>buf = ''BTN1_PRESS'' @ [NUL, CHR ''.''], ptr = 0, hasData = False\<rparr>"
  have h1: "line_terminated ?d" by (simp add: line_terminated_def)
  have h2: "handleDebugInput ?d (''BTN1_PRESS'' @ [LF]) = Inr ?d1"
    by (simp add: handleDebugInput_def BUF_SIZE_def)
  have h3: "CR \<notin> set ''x''" and h4: "LF \<notin> set ''x''" by simp_all
  have h5: "length ''x'' \<le> BUF_SIZE ?d1" by (simp add: BUF_SIZE_def)
  have "APP_vHandleDebugInput 1 (Some 2) ?d (''BTN1_PRESS'' @ [LF]) = Inr (reset ?d1, [1])"
    unfolding APP_vHandleDebugInput_def h2
    by (simp add: second_button_calls_def bindF_def orElse_def
        hasCompletedLine_def matchCommand_def literal_def BUF_SIZE_def)
  then have run: "APP_vHandleDebugInput 1 (Some 2) ?d (''BTN1_PRESS'' @ [LF]) = Inr (?d', [1])"
    by (simp add: reset_def)
  from APP_vHandleDebugInput_frame [OF h1 h2 h3 h4 h5, of 1 "Some 2"]
  have "\<exists>d2. APP_vHandleDebugInput 1 (Some 2) ?d' ''x'' = Inr (d2, [])"
    unfolding run by (simp add: hasCompletedLine_def reset_def)
  with h1 h2 h3 h4 h5 run show ?thesis by blast
qed

text \<open>
  A poll that ends in the middle of a line: no call, and the bytes stay in the buffer
  for the next poll to complete.
\<close>

lemma APP_vHandleDebugInput_partial_line:
  "APP_vHandleDebugInput 1 (Some 2) \<lparr>buf = ''............'', ptr = 0, hasData = False\<rparr> ''BTN1_'' =
     Inr (\<lparr>buf = ''BTN1_.......'', ptr = 5, hasData = False\<rparr>, []) \<and>
   APP_vHandleDebugInput 1 (Some 2) \<lparr>buf = ''BTN1_.......'', ptr = 5, hasData = False\<rparr>
       (''PRESS'' @ [CR]) =
     Inr (\<lparr>buf = ''BTN1_PRESS'' @ [NUL, CHR ''.''], ptr = 0, hasData = False\<rparr>, [1])"
  by (simp add: APP_vHandleDebugInput_def handleDebugInput_def BUF_SIZE_def bindF_def
      orElse_def second_button_calls_def hasCompletedLine_def matchCommand_def literal_def
      reset_def)

section \<open>The interlock invariants\<close>

lemma sibling_neq [simp]: "sibling ch \<noteq> ch" "ch \<noteq> sibling ch"
  by (cases ch; simp)+

lemma mutex_step: "\<not> bothOn (proposeTransition MutualExclusion ch b rs)"
  by (cases ch; cases b; simp add: proposeTransition_def bothOn_def)

lemma mutex_observed_tl:
  "\<forall>rs \<in> set (tl (observed MutualExclusion rs0 ps)). \<not> bothOn rs"
proof (induction ps arbitrary: rs0)
  case Nil
  then show ?case by simp
next
  case (Cons p ps)
  obtain ch b where p: "p = (ch, b)" by (cases p)
  let ?rs1 = "proposeTransition MutualExclusion ch b rs0"
  have "set (observed MutualExclusion ?rs1 ps) = insert ?rs1 (set (tl (observed MutualExclusion ?rs1 ps)))"
    by (cases ps) auto
  with Cons.IH [of ?rs1] mutex_step [of ch b rs0] p show ?case by simp
qed

lemma observed_hd: "observed mode rs0 ps = rs0 # tl (observed mode rs0 ps)"
  by (cases ps) auto

text \<open>
  C2. Under \<^verbatim>\<open>MutualExclusion\<close> the two relays are never both on: in no state observed
  after a call, whatever the state before it, and so in no state of a run that starts
  with the two not both on. A proposal to switch a channel on returns with that channel
  on and its sibling off; a proposal to switch a channel off returns with that channel
  off and the sibling as it was; and switching both off leaves both off.
\<close>

theorem mutual_exclusion_never_both_on:
  "(\<not> bothOn rs0 \<longrightarrow> (\<forall>rs \<in> set (observed MutualExclusion rs0 ps). \<not> bothOn rs)) \<and>
   (\<forall>rs \<in> set (tl (observed MutualExclusion rs0 ps)). \<not> bothOn rs) \<and>
   proposeTransition MutualExclusion ch True rs0 ch \<and>
   \<not> proposeTransition MutualExclusion ch True rs0 (sibling ch) \<and>
   \<not> proposeTransition MutualExclusion ch False rs0 ch \<and>
   proposeTransition MutualExclusion ch False rs0 (sibling ch) = rs0 (sibling ch) \<and>
   \<not> proposeTransition MutualExclusion ChannelB False
        (proposeTransition MutualExclusion ChannelA False rs0) ChannelA \<and>
   \<not> proposeTransition MutualExclusion ChannelB False
        (proposeTransition MutualExclusion ChannelA False rs0) ChannelB"
proof -
  have tl: "\<forall>rs \<in> set (tl (observed MutualExclusion rs0 ps)). \<not> bothOn rs"
    by (rule mutex_observed_tl)
  have all: "\<not> bothOn rs0 \<longrightarrow> (\<forall>rs \<in> set (observed MutualExclusion rs0 ps). \<not> bothOn rs)"
    using tl by (subst observed_hd) simp
  have calls: "proposeTransition MutualExclusion ch True rs0 ch \<and>
   \<not> proposeTransition MutualExclusion ch True rs0 (sibling ch) \<and>
   \<not> proposeTransition MutualExclusion ch False rs0 ch \<and>
   proposeTransition MutualExclusion ch False rs0 (sibling ch) = rs0 (sibling ch)"
    by (simp add: proposeTransition_def)
  have off: "\<not> proposeTransition MutualExclusion ChannelB False
        (proposeTransition MutualExclusion ChannelA False rs0) ChannelA \<and>
   \<not> proposeTransition MutualExclusion ChannelB False
        (proposeTransition MutualExclusion ChannelA False rs0) ChannelB"
    by (simp add: proposeTransition_def)
  from tl all calls off show ?thesis by blast
qed

theorem mutual_exclusion_never_both_on_witness:
  "\<not> bothOn ((\<lambda>_. False)(ChannelA := True)) \<and>
   \<not> bothOn (proposeTransition MutualExclusion ChannelB True ((\<lambda>_. False)(ChannelA := True))) \<and>
   proposeTransition MutualExclusion ChannelB True ((\<lambda>_. False)(ChannelA := True)) ChannelB \<and>
   \<not> proposeTransition MutualExclusion ChannelB True ((\<lambda>_. False)(ChannelA := True)) ChannelA"
proof -
  let ?rs0 = "(\<lambda>_. False)(ChannelA := True)"
  have start: "\<not> bothOn ?rs0" by (simp add: bothOn_def)
  from mutual_exclusion_never_both_on [of ?rs0 "[(ChannelB, True)]" ChannelB] start
  show ?thesis by simp
qed

lemma opposite_step: "negated (proposeTransition Opposite ch b rs)"
  by (cases ch; cases b; simp add: proposeTransition_def negated_def)

lemma opposite_observed_tl:
  "\<forall>rs \<in> set (tl (observed Opposite rs0 ps)). negated rs"
proof (induction ps arbitrary: rs0)
  case Nil
  then show ?case by simp
next
  case (Cons p ps)
  obtain ch b where p: "p = (ch, b)" by (cases p)
  let ?rs1 = "proposeTransition Opposite ch b rs0"
  have "observed Opposite ?rs1 ps = ?rs1 # tl (observed Opposite ?rs1 ps)"
    by (rule observed_hd)
  then have "set (observed Opposite ?rs1 ps) = insert ?rs1 (set (tl (observed Opposite ?rs1 ps)))"
    by (metis list.simps(15))
  with Cons.IH [of ?rs1] opposite_step [of ch b rs0] p show ?case by simp
qed

text \<open>
  C3. Under \<^verbatim>\<open>Opposite\<close> the two relay states are negations of each other in every
  state observed after a call, whatever the state before it, and so in every state of a
  run that starts with the two opposite: each call returns with the channel in the
  proposed state and the sibling in the negated one, and no state in between is part
  of a run.
\<close>

theorem opposite_always_negated:
  "(negated rs0 \<longrightarrow> (\<forall>rs \<in> set (observed Opposite rs0 ps). negated rs)) \<and>
   (\<forall>rs \<in> set (tl (observed Opposite rs0 ps)). negated rs) \<and>
   proposeTransition Opposite ch b rs0 ch = b \<and>
   proposeTransition Opposite ch b rs0 (sibling ch) = (\<not> b)"
proof -
  have tl: "\<forall>rs \<in> set (tl (observed Opposite rs0 ps)). negated rs"
    by (rule opposite_observed_tl)
  have all: "negated rs0 \<longrightarrow> (\<forall>rs \<in> set (observed Opposite rs0 ps). negated rs)"
    using tl by (subst observed_hd) simp
  have call: "proposeTransition Opposite ch b rs0 ch = b \<and>
      proposeTransition Opposite ch b rs0 (sibling ch) = (\<not> b)"
    by (simp add: proposeTransition_def)
  from tl all call show ?thesis by blast
qed

theorem opposite_always_negated_witness:
  "negated ((\<lambda>_. False)(ChannelA := True)) \<and>
   negated (proposeTransition Opposite ChannelB True ((\<lambda>_. False)(ChannelA := True))) \<and>
   negated (proposeTransition Opposite ChannelA True
             (proposeTransition Opposite ChannelB True ((\<lambda>_. False)(ChannelA := True)))) \<and>
   proposeTransition Opposite ChannelB True ((\<lambda>_. False)(ChannelA := True)) ChannelB \<and>
   \<not> proposeTransition Opposite ChannelB True ((\<lambda>_. False)(ChannelA := True)) ChannelA"
proof -
  let ?rs0 = "(\<lambda>_. False)(ChannelA := True)"
  have start: "negated ?rs0" by (simp add: negated_def)
  from opposite_always_negated [of ?rs0 "[(ChannelB, True), (ChannelA, True)]" ChannelB True] start
  show ?thesis by simp
qed

end
